theory Spec2Isabelle
  imports Main "HOL-Library.Multiset"
begin

section \<open>Data model\<close>

text \<open>
  \<^verbatim>\<open>release.go\<close> is one \<^verbatim>\<open>main\<close> function over the go-github client. The client
  library is not part of the repository; the values it hands to \<^verbatim>\<open>main\<close> are modelled
  below, everything else follows \<^verbatim>\<open>release.go\<close> line by line.

  A \<^verbatim>\<open>time.Time\<close> is an instant on the time line: \<^verbatim>\<open>t.Before(u)\<close> is \<open>t < u\<close> and
  \<^verbatim>\<open>t.After(u)\<close> is \<open>u < t\<close>. An \<^verbatim>\<open>error\<close> is its message.
\<close>

type_synonym time = int
type_synonym error = string

text \<open>
  Modelled from the spec: \<^verbatim>\<open>github.PullRequest\<close> is declared in go-github, not in this
  repository. The spec's data model gives a pull request a number, a title, an author
  handle, a merge timestamp that is nullable (null means not merged) and an update
  timestamp. Only the merge timestamp is therefore an \<open>option\<close>; \<open>Login\<close> stands
  for \<^verbatim>\<open>User.Login\<close>.
\<close>

record pull_request =
  Number :: int
  Title :: string
  Login :: string
  MergedAt :: "time option"
  UpdatedAt :: time

text \<open>The fields of \<^verbatim>\<open>github.RepositoryRelease\<close> that \<^verbatim>\<open>main\<close> fills in (lines 172-177).\<close>

record repository_release =
  TagName :: string
  Name :: string
  Prerelease :: bool
  Body :: string

text \<open>
  The package-level variables of lines 17-28, as \<^verbatim>\<open>flag.Parse\<close> leaves them. \<open>last'\<close>
  is the variable \<^verbatim>\<open>last\<close>.
\<close>

record flags =
  repository :: string
  owner :: string
  base :: string
  last' :: int
  current :: int
  token :: string
  relnoteFilter :: bool
  releaseName :: string
  tagName :: string
  preRelease :: bool

text \<open>
  What a run does to the outside world, in order: every line it prints and every call it
  makes to the GitHub client or to \<^verbatim>\<open>time.Sleep\<close>. A print is recorded with the values
  it formats, one constructor for each print statement of the source.
\<close>

datatype event =
    Usage
  | ReleaseUsage
  | FetchingPage nat
  | PullRequestsList string string string nat
  | ErrorContacting error
  | PrintCurrent int
  | FoundLast int
  | FoundCurrent int
  | PageSummary nat nat
  | Dot
  | ListLabelsByIssue string string int
  | Sleep nat
  | Newline
  | NotesHeader int int string
  | NotesBlock string
  | CreateRelease string string repository_release
  | ErrorRelease error
  | ReleaseURL string

text \<open>
  How a run ends: \<^verbatim>\<open>main\<close> returns (exit status 0), \<^verbatim>\<open>os.Exit(n)\<close>, or a nil pointer
  is dereferenced and the Go runtime panics.
\<close>

datatype outcome = Returned | Exit nat | Panic

text \<open>
  Modelled from the spec: the GitHub API is an external collaborator (spec section 6), of
  which \<^verbatim>\<open>main\<close> needs three functions. \<open>PullRequests_List owner repo base\<close> is the
  sequence of answers to the successive page requests, page 1 first, each an error or a
  page of pull requests; a request past the end of the sequence is answered by an empty
  page, as GitHub answers a page number past the last one. A label is its name; a created
  release is its \<^verbatim>\<open>HTMLURL\<close>.
\<close>

record github =
  PullRequests_List :: "string \<Rightarrow> string \<Rightarrow> string \<Rightarrow> (error + pull_request list) list"
  Issues_ListLabelsByIssue :: "string \<Rightarrow> string \<Rightarrow> int \<Rightarrow> error + string list"
  Repositories_CreateRelease :: "string \<Rightarrow> string \<Rightarrow> repository_release \<Rightarrow> error + string"

text \<open>
  The variables of \<^verbatim>\<open>main\<close> during the fetch loop (lines 88-91, 102-103) on top of the
  package-level ones, of which the loop assigns \<open>current\<close>; \<open>done'\<close> is the variable
  \<^verbatim>\<open>done\<close>, \<open>Page\<close> is \<^verbatim>\<open>opts.Page\<close>, and \<open>out\<close> collects the events so far.
\<close>

record state = flags +
  Page :: nat
  done' :: bool
  prs :: "pull_request list"
  lastVersionMerged :: "time option"
  currentVersionMerged :: "time option"
  merged :: nat
  unmerged :: nat
  out :: "event list"

definition emit :: "event list \<Rightarrow> state \<Rightarrow> state" where
  "emit es s = s\<lparr>out := out s @ es\<rparr>"

definition start :: "flags \<Rightarrow> state" where
  "start f = flags.extend f
     \<lparr>Page = 0, done' = False, prs = [], lastVersionMerged = None,
      currentVersionMerged = None, merged = 0, unmerged = 0, out = []\<rparr>"

section \<open>The fetch loop (lines 94-137)\<close>

text \<open>
  The loop over one page, lines 112-135. \<^verbatim>\<open>continue\<close> and falling through go on with
  the rest of the page, \<^verbatim>\<open>break\<close> returns the state.
\<close>

fun page_loop :: "pull_request list \<Rightarrow> state \<Rightarrow> state" where
  "page_loop [] s = s"
| "page_loop (result # results) s =
    (case MergedAt result of
       None \<Rightarrow> page_loop results (s\<lparr>unmerged := unmerged s + 1\<rparr>)
     | Some m \<Rightarrow>
        if Number result = last' s then
          emit [FoundLast (last' s)] (s\<lparr>lastVersionMerged := Some m\<rparr>)
        else if (case lastVersionMerged s of None \<Rightarrow> False
                 | Some l \<Rightarrow> UpdatedAt result < l) then
          s\<lparr>done' := True\<rparr>
        else
          page_loop results
            ((if Number result = current s
              then emit [FoundCurrent (current s)] (s\<lparr>currentVersionMerged := Some m\<rparr>)
              else s)
             \<lparr>prs := prs s @ [result], merged := merged s + 1\<rparr>))"

text \<open>
  One turn of \<^verbatim>\<open>for !done\<close> from line 95 to line 136, on the answer to the page request:
  the new state, and the exit status when the turn ends the process.
\<close>

definition fetch_page :: "error + pull_request list \<Rightarrow> state \<Rightarrow> state \<times> outcome option" where
  "fetch_page answer s0 =
    (let s1 = s0\<lparr>Page := Page s0 + 1\<rparr>;
         s2 = emit [FetchingPage (Page s1),
                    PullRequestsList (owner s1) (repository s1) (base s1) (Page s1)] s1
     in case answer of
          Inl err \<Rightarrow> (emit [ErrorContacting err] s2, Some (Exit 1))
        | Inr results \<Rightarrow>
           (case results of
              [] \<Rightarrow> (s2\<lparr>unmerged := 0, merged := 0, done' := True\<rparr>, None)
            | first # _ \<Rightarrow>
               let s3 = s2\<lparr>unmerged := 0, merged := 0\<rparr>;
                   s4 = (if current s3 = 0
                         then emit [PrintCurrent (Number first)] (s3\<lparr>current := Number first\<rparr>)
                         else s3);
                   s5 = page_loop results s4
               in (emit [PageSummary (merged s5) (unmerged s5)] s5, None)))"

text \<open>
  The loop \<^verbatim>\<open>for !done\<close>: one answer of the sequence for each request, an empty page
  once the sequence is used up.
\<close>

fun fetch_loop :: "(error + pull_request list) list \<Rightarrow> state \<Rightarrow> state \<times> outcome option" where
  "fetch_loop [] s = fetch_page (Inr []) s"
| "fetch_loop (answer # answers) s =
    (case fetch_page answer s of
       (s', Some status) \<Rightarrow> (s', Some status)
     | (s', None) \<Rightarrow> if done' s' then (s', None) else fetch_loop answers s')"

section \<open>Sorting (lines 30-34 and 138)\<close>

text \<open>
  \<^verbatim>\<open>byMerged.Less\<close>, line 34: both merge timestamps are dereferenced, \<open>None\<close> is the
  panic of a nil one.
\<close>

definition Less :: "pull_request \<Rightarrow> pull_request \<Rightarrow> bool option" where
  "Less a b =
    (case MergedAt a of
       None \<Rightarrow> None
     | Some x \<Rightarrow> (case MergedAt b of None \<Rightarrow> None | Some y \<Rightarrow> Some (x < y)))"

text \<open>
  \<^verbatim>\<open>sort.Sort\<close> belongs to the Go standard library: \<^verbatim>\<open>main\<close> takes it as a parameter
  \<open>srt\<close>, whose result \<open>None\<close> is a panic inside the sort. What the library promises is
  \<open>sort_contract\<close>: when no comparison can panic, the result is a rearrangement of the
  input in which no element is \<open>Less\<close> than an earlier one. Equal elements may come in
  any order.
\<close>

definition sort_contract :: "(pull_request list \<Rightarrow> pull_request list option) \<Rightarrow> bool" where
  "sort_contract srt \<longleftrightarrow>
    (\<forall>xs. (\<forall>p \<in> set xs. MergedAt p \<noteq> None) \<longrightarrow>
       (\<exists>ys. srt xs = Some ys \<and> mset ys = mset xs \<and>
             sorted_wrt (\<lambda>a b. Less b a \<noteq> Some True) ys))"

text \<open>One sort that keeps the contract, insertion by \<open>Less\<close>, to run \<^verbatim>\<open>main\<close> with.\<close>

fun insert_byMerged :: "pull_request \<Rightarrow> pull_request list \<Rightarrow> pull_request list" where
  "insert_byMerged p [] = [p]"
| "insert_byMerged p (q # qs) =
    (if Less q p = Some True then q # insert_byMerged p qs else p # q # qs)"

definition insertion_sort :: "pull_request list \<Rightarrow> pull_request list option" where
  "insertion_sort xs =
    (if 2 \<le> length xs \<and> (\<exists>p \<in> set xs. MergedAt p = None) then None
     else Some (foldr insert_byMerged xs []))"

section \<open>Note generation (lines 139-161)\<close>

text \<open>\<^verbatim>\<open>%d\<close> of an \<^verbatim>\<open>int\<close>.\<close>

fun show_nat :: "nat \<Rightarrow> string" where
  "show_nat n =
    (if n < 10 then [char_of (48 + n)]
     else show_nat (n div 10) @ [char_of (48 + n mod 10)])"

declare show_nat.simps [simp del]

definition show_int :: "int \<Rightarrow> string" where
  "show_int i = (if i < 0 then CHR ''-'' # show_nat (nat (- i)) else show_nat (nat i))"

text \<open>
  The line of lines 143 and 156. The buffer is kept as the pull requests whose line was
  written to it, in order; \<open>buffer_bytes\<close> are its bytes.
\<close>

definition note_line :: "pull_request \<Rightarrow> string" where
  "note_line pr =
    ''   * '' @ Title pr @ '' (#'' @ show_int (Number pr) @ '', @'' @ Login pr @ '')'' @ [CHR 0x0A]"

definition buffer_bytes :: "pull_request list \<Rightarrow> string" where
  "buffer_bytes buffer = concat (map note_line buffer)"

text \<open>
  The condition of line 141. \<open>None\<close> is the panic of a nil pointer: \<^verbatim>\<open>lastVersionMerged\<close>
  and \<^verbatim>\<open>pr.MergedAt\<close> are dereferenced first, \<^verbatim>\<open>currentVersionMerged\<close> only when the
  left operand of \<^verbatim>\<open>&&\<close> is true.
\<close>

definition in_window :: "state \<Rightarrow> pull_request \<Rightarrow> bool option" where
  "in_window s pr =
    (case lastVersionMerged s of
       None \<Rightarrow> None
     | Some l \<Rightarrow>
        (case MergedAt pr of
           None \<Rightarrow> None
         | Some m \<Rightarrow>
            if l < m
            then (case currentVersionMerged s of None \<Rightarrow> None | Some c \<Rightarrow> Some (m < c))
            else Some False))"

text \<open>The loop over the labels, lines 154-158.\<close>

fun label_loop :: "pull_request \<Rightarrow> string list \<Rightarrow> pull_request list \<Rightarrow> pull_request list" where
  "label_loop pr [] buffer = buffer"
| "label_loop pr (label # labels) buffer =
    label_loop pr labels (if label = ''release-note'' then buffer @ [pr] else buffer)"

text \<open>The loop of lines 140-161 over the sorted candidates.\<close>

fun notes_loop ::
  "github \<Rightarrow> pull_request list \<Rightarrow> state \<Rightarrow> pull_request list
    \<Rightarrow> (state \<times> pull_request list) \<times> outcome option" where
  "notes_loop gh [] s buffer = ((s, buffer), None)"
| "notes_loop gh (pr # rest) s buffer =
    (case in_window s pr of
       None \<Rightarrow> ((s, buffer), Some Panic)
     | Some False \<Rightarrow> notes_loop gh rest s buffer
     | Some True \<Rightarrow>
        if \<not> relnoteFilter s then notes_loop gh rest s (buffer @ [pr])
        else
          let s1 = emit [Dot, ListLabelsByIssue (owner s) (repository s) (Number pr), Sleep 5] s
          in (case Issues_ListLabelsByIssue gh (owner s) (repository s) (Number pr) of
                Inl err \<Rightarrow> ((emit [ErrorContacting err] s1, buffer), Some (Exit 1))
              | Inr labels \<Rightarrow> notes_loop gh rest s1 (label_loop pr labels buffer)))"

section \<open>Printing the notes and publishing (lines 162-183), and \<^verbatim>\<open>main\<close>\<close>

text \<open>
  A finished run: its events, how it ended, and the buffer it had built by then.
\<close>

record run =
  trace :: "event list"
  status :: outcome
  note_list :: "pull_request list"

definition finish :: "state \<Rightarrow> outcome \<Rightarrow> pull_request list \<Rightarrow> run" where
  "finish s st buffer = \<lparr>trace = out s, status = st, note_list = buffer\<rparr>"

definition publish :: "github \<Rightarrow> state \<Rightarrow> pull_request list \<Rightarrow> run" where
  "publish gh s buffer =
    (let s1 = emit [Newline, NotesHeader (last' s) (current s) (base s),
                    NotesBlock (buffer_bytes buffer)] s
     in if tagName s = [] \<or> releaseName s = [] then
          finish (emit [ReleaseUsage] s1) (Exit 1) buffer
        else
          let release = \<lparr>TagName = tagName s, Name = releaseName s,
                         Prerelease = preRelease s, Body = buffer_bytes buffer\<rparr>;
              s2 = emit [CreateRelease ''zjj2wry'' ''console-web'' release] s1
          in (case Repositories_CreateRelease gh ''zjj2wry'' ''console-web'' release of
                Inl err \<Rightarrow> finish (emit [ErrorRelease err] s2) (Exit 1) buffer
              | Inr url \<Rightarrow> finish (emit [ReleaseURL url] s2) Returned buffer))"

text \<open>The fetch loop of a run, from the variables as the flags set them.\<close>

definition scan :: "flags \<Rightarrow> github \<Rightarrow> state \<times> outcome option" where
  "scan f gh = fetch_loop (PullRequests_List gh (owner f) (repository f) (base f)) (start f)"

text \<open>
  \<^verbatim>\<open>main\<close> up to line 161: the flag check, the fetch loop, the sort and the note loop.
  The result is the state and the buffer, and the exit status when the run ended there.
  Lines 67-75 build the client from the token and lines 77-86 the options of the page
  requests; neither prints nor calls GitHub.
\<close>

definition generate ::
  "(pull_request list \<Rightarrow> pull_request list option) \<Rightarrow> flags \<Rightarrow> github
    \<Rightarrow> (state \<times> pull_request list) \<times> outcome option" where
  "generate srt f gh =
    (if last' f = 0 \<or> token f = [] then ((emit [Usage] (start f), []), Some (Exit 1))
     else
       (case scan f gh of
          (s, Some st) \<Rightarrow> ((s, []), Some st)
        | (s, None) \<Rightarrow>
           (case srt (prs s) of
              None \<Rightarrow> ((s, []), Some Panic)
            | Some candidates \<Rightarrow> notes_loop gh candidates s [])))"

definition release_main ::
  "(pull_request list \<Rightarrow> pull_request list option) \<Rightarrow> flags \<Rightarrow> github \<Rightarrow> run" where
  "release_main srt f gh =
    (case generate srt f gh of
       ((s, buffer), Some st) \<Rightarrow> finish s st buffer
     | ((s, buffer), None) \<Rightarrow> publish gh s buffer)"

section \<open>Predicates on events, states and pull requests\<close>

text \<open>Every call that lists labels is followed at once by a sleep of five seconds.\<close>

fun sleeps_after_labels :: "event list \<Rightarrow> bool" where
  "sleeps_after_labels [] = True"
| "sleeps_after_labels (ListLabelsByIssue ow re n # es) =
    (case es of Sleep d # es' \<Rightarrow> d = 5 \<and> sleeps_after_labels es' | _ \<Rightarrow> False)"
| "sleeps_after_labels (e # es) = sleeps_after_labels es"

fun is_CreateRelease :: "event \<Rightarrow> bool" where
  "is_CreateRelease (CreateRelease ow re r) = True"
| "is_CreateRelease e = False"

fun is_ListLabelsByIssue :: "event \<Rightarrow> bool" where
  "is_ListLabelsByIssue (ListLabelsByIssue ow re n) = True"
| "is_ListLabelsByIssue e = False"

text \<open>The flags that \<^verbatim>\<open>main\<close> only reads have the same values in two states.\<close>

definition same_flags :: "state \<Rightarrow> state \<Rightarrow> bool" where
  "same_flags s s' \<longleftrightarrow>
    repository s' = repository s \<and> owner s' = owner s \<and> base s' = base s \<and>
    last' s' = last' s \<and> token s' = token s \<and> relnoteFilter s' = relnoteFilter s \<and>
    releaseName s' = releaseName s \<and> tagName s' = tagName s \<and> preRelease s' = preRelease s"

text \<open>One merge time is known and not after the other.\<close>

definition merged_le :: "pull_request \<Rightarrow> pull_request \<Rightarrow> bool" where
  "merged_le a b =
    (case MergedAt a of
       None \<Rightarrow> False
     | Some x \<Rightarrow> (case MergedAt b of None \<Rightarrow> False | Some y \<Rightarrow> x \<le> y))"

text \<open>A pull request is merged when its merge timestamp is not null (spec, glossary).\<close>

definition is_merged :: "pull_request \<Rightarrow> bool" where
  "is_merged p \<longleftrightarrow> MergedAt p \<noteq> None"

text \<open>The labels of a pull request, as GitHub answers, hold one named \<^verbatim>\<open>release-note\<close>.\<close>

definition labelled :: "github \<Rightarrow> string \<Rightarrow> string \<Rightarrow> pull_request \<Rightarrow> bool" where
  "labelled gh ow re p \<longleftrightarrow>
    (\<exists>labels. Issues_ListLabelsByIssue gh ow re (Number p) = Inr labels \<and>
       ''release-note'' \<in> set labels)"

text \<open>
  The scan of one page in the words of the spec (section 4.1, fetch loop), to compare
  \<open>page_loop\<close> with. A merged pull request stops the scan of the page when it is
  numbered \<^verbatim>\<open>last\<close>, or when the lower boundary is known and the pull request was
  updated before it; within a page both tests read the state as it was when the page
  began.
\<close>

definition stops :: "state \<Rightarrow> pull_request \<Rightarrow> bool" where
  "stops s p \<longleftrightarrow>
    MergedAt p \<noteq> None \<and>
    (Number p = last' s \<or>
     (case lastVersionMerged s of None \<Rightarrow> False | Some l \<Rightarrow> UpdatedAt p < l))"

text \<open>The pull request at which the scan of the page stops, when there is one.\<close>

definition stopped_at :: "state \<Rightarrow> pull_request list \<Rightarrow> pull_request option" where
  "stopped_at s results =
    (case dropWhile (\<lambda>p. \<not> stops s p) results of [] \<Rightarrow> None | p # _ \<Rightarrow> Some p)"

text \<open>
  The pull requests that the page adds to the candidates: the merged ones that come
  before the one at which the scan stops.
\<close>

definition accumulated :: "state \<Rightarrow> pull_request list \<Rightarrow> pull_request list" where
  "accumulated s results =
    filter (\<lambda>p. MergedAt p \<noteq> None) (takeWhile (\<lambda>p. \<not> stops s p) results)"

section \<open>Example runs\<close>

text \<open>
  The example of the spec: last = 10 merged at 100, current = 20 merged at 200, and
  pull requests merged before, between and after the two, listed by update time,
  latest first. Numbers 15 and 17 were merged between the two, 17 updated later than
  15; number 7 was closed without a merge, and only number 15 carries the label.
\<close>

definition example_pr :: "int \<Rightarrow> time option \<Rightarrow> time \<Rightarrow> pull_request" where
  "example_pr n m u =
    \<lparr>Number = n, Title = ''Fix'', Login = ''dev'', MergedAt = m, UpdatedAt = u\<rparr>"

definition example_flags :: flags where
  "example_flags =
    \<lparr>repository = ''console-web'', owner = ''caicloud'', base = ''master'', last' = 10,
     current = 20, token = ''secret'', relnoteFilter = False, releaseName = ''1.0'',
     tagName = ''v1.0'', preRelease = False\<rparr>"

definition example_page :: "pull_request list" where
  "example_page =
    [example_pr 30 (Some 300) 310, example_pr 20 (Some 200) 210,
     example_pr 17 (Some 170) 165, example_pr 15 (Some 150) 160, example_pr 7 None 158,
     example_pr 5 (Some 50) 155, example_pr 10 (Some 100) 110]"

definition example_github :: github where
  "example_github =
    \<lparr>PullRequests_List = (\<lambda>ow re b. [Inr example_page]),
     Issues_ListLabelsByIssue =
       (\<lambda>ow re n. if n = 15 then Inr [''bug'', ''release-note''] else Inr []),
     Repositories_CreateRelease = (\<lambda>ow re r. Inr ''https://github.com/releases/1'')\<rparr>"

text \<open>
  A page that could follow the example page: number 3 was last updated before the merge
  of the last boundary.
\<close>

definition later_page :: "pull_request list" where
  "later_page =
    [example_pr 12 (Some 120) 130, example_pr 3 (Some 30) 90, example_pr 13 (Some 125) 126]"

text \<open>
  A second run: \<^verbatim>\<open>current\<close> is not given, and the first pull request listed, number 7,
  was closed without a merge.
\<close>

definition unset_flags :: flags where
  "unset_flags = example_flags\<lparr>current := 0\<rparr>"

definition unmerged_first_github :: github where
  "unmerged_first_github =
    \<lparr>PullRequests_List =
       (\<lambda>ow re b. [Inr [example_pr 7 None 400, example_pr 5 (Some 50) 155,
                         example_pr 10 (Some 100) 110]]),
     Issues_ListLabelsByIssue = (\<lambda>ow re n. Inr []),
     Repositories_CreateRelease = (\<lambda>ow re r. Inr ''https://github.com/releases/1'')\<rparr>"

text \<open>
  Variations of the example: no tag name, the label filter on, a last boundary that is
  never listed, an answer with the label \<^verbatim>\<open>release-note\<close> twice, and requests for
  labels that fail.
\<close>

definition untagged_flags :: flags where
  "untagged_flags = example_flags\<lparr>tagName := []\<rparr>"

definition filtered_flags :: flags where
  "filtered_flags = example_flags\<lparr>relnoteFilter := True\<rparr>"


definition twice_labelled_github :: github where
  "twice_labelled_github =
    example_github\<lparr>Issues_ListLabelsByIssue :=
      (\<lambda>ow re n. if n = 15 then Inr [''release-note'', ''release-note''] else Inr [])\<rparr>"

definition failing_labels_github :: github where
  "failing_labels_github =
    example_github\<lparr>Issues_ListLabelsByIssue := (\<lambda>ow re n. Inl ''rate limit exceeded'')\<rparr>"

section \<open>Properties\<close>

subsection \<open>States and flags\<close>

lemma emit_simps [simp]:
  "prs (emit es s) = prs s" "current (emit es s) = current s"
  "lastVersionMerged (emit es s) = lastVersionMerged s"
  "currentVersionMerged (emit es s) = currentVersionMerged s"
  "done' (emit es s) = done' s" "merged (emit es s) = merged s"
  "unmerged (emit es s) = unmerged s" "Page (emit es s) = Page s"
  "out (emit es s) = out s @ es" "last' (emit es s) = last' s"
  "owner (emit es s) = owner s" "repository (emit es s) = repository s"
  "base (emit es s) = base s" "relnoteFilter (emit es s) = relnoteFilter s"
  "tagName (emit es s) = tagName s" "releaseName (emit es s) = releaseName s"
  "preRelease (emit es s) = preRelease s" "token (emit es s) = token s"
  by (simp_all add: emit_def)

lemma start_simps [simp]:
  "prs (start f) = []" "current (start f) = current f"
  "lastVersionMerged (start f) = None" "currentVersionMerged (start f) = None"
  "done' (start f) = False" "Page (start f) = 0" "out (start f) = []"
  "last' (start f) = last' f" "owner (start f) = owner f"
  "repository (start f) = repository f" "base (start f) = base f"
  "relnoteFilter (start f) = relnoteFilter f" "tagName (start f) = tagName f"
  "releaseName (start f) = releaseName f" "preRelease (start f) = preRelease f"
  "token (start f) = token f"
  by (simp_all add: start_def flags.extend_def)

lemma same_flags_refl [simp]: "same_flags s s"
  by (simp add: same_flags_def)

lemma same_flags_emit [simp]: "same_flags s0 (emit es s) = same_flags s0 s"
  by (simp add: same_flags_def)

lemma same_flags_trans: "same_flags a b \<Longrightarrow> same_flags b c \<Longrightarrow> same_flags a c"
  by (simp add: same_flags_def)

subsection \<open>Event sequences\<close>

lemma sleeps_after_labels_append:
  "sleeps_after_labels xs \<Longrightarrow> sleeps_after_labels ys \<Longrightarrow> sleeps_after_labels (xs @ ys)"
  by (induction xs rule: sleeps_after_labels.induct) (auto split: list.splits event.splits)

subsection \<open>The fetch loop\<close>

lemma fetch_loop_invariant:
  assumes step: "\<And>answer s. I s \<Longrightarrow> I (fst (fetch_page answer s))"
    and init: "I s"
  shows "I (fst (fetch_loop answers s))"
  using init
proof (induction answers arbitrary: s)
  case Nil
  then show ?case by (simp add: step)
next
  case (Cons answer answers)
  have inv: "I (fst (fetch_page answer s))"
    using Cons.prems by (rule step)
  show ?case
  proof (cases "fetch_page answer s")
    case (Pair s' st)
    with inv Cons.IH [of s'] show ?thesis
      by (cases st) auto
  qed
qed

lemma fetch_page_status: "snd (fetch_page (Inr results) s) = None"
  by (simp add: fetch_page_def Let_def split: list.splits del: page_loop.simps)

lemma page_loop_same_flags:
  "same_flags s0 s \<Longrightarrow> same_flags s0 (page_loop results s)"
  by (induction results arbitrary: s) (simp_all add: same_flags_def split: option.splits)

lemma fetch_page_same_flags:
  "same_flags s0 s \<Longrightarrow> same_flags s0 (fst (fetch_page answer s))"
proof -
  assume a: "same_flags s0 s"
  have b: "\<And>s'. same_flags s0 s' \<Longrightarrow> same_flags s0 (page_loop results s')" for results
    by (rule page_loop_same_flags)
  show ?thesis
    using a
    by (auto simp add: fetch_page_def Let_def split: sum.splits list.splits
        simp del: page_loop.simps intro!: b) (simp_all add: same_flags_def)
qed

lemma scan_same_flags: "same_flags (start f) (fst (scan f gh))"
  unfolding scan_def by (rule fetch_loop_invariant) (simp_all add: fetch_page_same_flags)

lemma page_loop_sleeps:
  "sleeps_after_labels (out s) \<Longrightarrow> sleeps_after_labels (out (page_loop results s))"
  by (induction results arbitrary: s)
     (simp_all add: sleeps_after_labels_append split: option.splits)

lemma fetch_page_sleeps:
  "sleeps_after_labels (out s) \<Longrightarrow> sleeps_after_labels (out (fst (fetch_page answer s)))"
  by (simp add: fetch_page_def Let_def page_loop_sleeps sleeps_after_labels_append
      split: sum.splits list.splits del: page_loop.simps)

lemma scan_sleeps: "sleeps_after_labels (out (fst (scan f gh)))"
  unfolding scan_def by (rule fetch_loop_invariant) (simp_all add: fetch_page_sleeps)

lemma page_loop_no_release:
  "filter is_CreateRelease (out (page_loop results s)) = filter is_CreateRelease (out s)"
  by (induction results arbitrary: s) (simp_all split: option.splits)

lemma fetch_page_no_release:
  "filter is_CreateRelease (out (fst (fetch_page answer s))) = filter is_CreateRelease (out s)"
  by (simp add: fetch_page_def Let_def page_loop_no_release
      split: sum.splits list.splits del: page_loop.simps)

lemma scan_no_release: "filter is_CreateRelease (out (fst (scan f gh))) = []"
  unfolding scan_def by (rule fetch_loop_invariant) (simp_all add: fetch_page_no_release)

subsection \<open>The candidates are merged pull requests\<close>

lemma all_merged_iff: "(\<forall>p \<in> set xs. MergedAt p \<noteq> None) \<longleftrightarrow> list_all is_merged xs"
  unfolding list_all_iff is_merged_def ..

lemma Less_merged: "is_merged a \<Longrightarrow> is_merged b \<Longrightarrow> Less a b \<noteq> None"
  by (cases "MergedAt a"; cases "MergedAt b") (simp_all add: is_merged_def Less_def)

lemma page_loop_merged:
  "list_all is_merged (prs s) \<Longrightarrow> list_all is_merged (prs (page_loop results s))"
  by (induction results arbitrary: s) (simp_all add: is_merged_def split: option.splits)

lemma fetch_page_merged:
  "list_all is_merged (prs s) \<Longrightarrow> list_all is_merged (prs (fst (fetch_page answer s)))"
  by (simp add: fetch_page_def Let_def page_loop_merged split: sum.splits list.splits
      del: page_loop.simps)

lemma fetch_loop_merged:
  "list_all is_merged (prs s) \<Longrightarrow> list_all is_merged (prs (fst (fetch_loop answers s)))"
proof (induction answers arbitrary: s)
  case Nil
  then show ?case by (simp add: fetch_page_merged)
next
  case (Cons answer answers)
  have inv: "list_all is_merged (prs (fst (fetch_page answer s)))"
    using Cons.prems by (rule fetch_page_merged)
  show ?case
  proof (cases "fetch_page answer s")
    case (Pair s' st)
    with inv Cons.IH [of s'] show ?thesis
      by (cases st) auto
  qed
qed

lemma scan_merged: "list_all is_merged (prs (fst (scan f gh)))"
  unfolding scan_def by (rule fetch_loop_merged) simp

lemma page_loop_unmerged_counter:
  "(page_loop results (s\<lparr>unmerged := k\<rparr>))\<lparr>unmerged := j\<rparr> =
   (page_loop results s)\<lparr>unmerged := j\<rparr>"
proof (induction results arbitrary: s k)
  case Nil
  show ?case by simp
next
  case (Cons result results)
  show ?case
  proof (cases "MergedAt result")
    case None
    have "(page_loop results (s\<lparr>unmerged := k + 1\<rparr>))\<lparr>unmerged := j\<rparr> =
          (page_loop results s)\<lparr>unmerged := j\<rparr>"
      by (rule Cons.IH)
    moreover have "(page_loop results (s\<lparr>unmerged := unmerged s + 1\<rparr>))\<lparr>unmerged := j\<rparr> =
          (page_loop results s)\<lparr>unmerged := j\<rparr>"
      by (rule Cons.IH)
    ultimately show ?thesis
      using None by simp
  next
    case (Some m)
    let ?stop = "\<lambda>s::state. Number result = last' s \<or>
      (case lastVersionMerged s of None \<Rightarrow> False | Some l \<Rightarrow> UpdatedAt result < l)"
    let ?keep = "\<lambda>s::state. (if Number result = current s
              then emit [FoundCurrent (current s)] (s\<lparr>currentVersionMerged := Some m\<rparr>)
              else s)
             \<lparr>prs := prs s @ [result], merged := merged s + 1\<rparr>"
    show ?thesis
    proof (cases "?stop s")
      case True
      with Some show ?thesis
        by (auto simp add: emit_def)
    next
      case False
      then have stop: "\<not> ?stop s" "\<not> ?stop (s\<lparr>unmerged := k\<rparr>)"
        by simp_all
      have step: "page_loop (result # results) t = page_loop results (?keep t)"
        if "\<not> ?stop t" for t
        using that Some by simp
      have k: "?keep (s\<lparr>unmerged := k\<rparr>) = (?keep s)\<lparr>unmerged := k\<rparr>"
        by (simp add: emit_def)
      have "(page_loop (result # results) (s\<lparr>unmerged := k\<rparr>))\<lparr>unmerged := j\<rparr> =
            (page_loop results (?keep (s\<lparr>unmerged := k\<rparr>)))\<lparr>unmerged := j\<rparr>"
        by (simp only: step [OF stop(2)])
      also have "\<dots> = (page_loop results ((?keep s)\<lparr>unmerged := k\<rparr>))\<lparr>unmerged := j\<rparr>"
        by (simp only: k)
      also have "\<dots> = (page_loop results (?keep s))\<lparr>unmerged := j\<rparr>"
        by (rule Cons.IH)
      also have "\<dots> = (page_loop (result # results) s)\<lparr>unmerged := j\<rparr>"
        by (simp only: step [OF stop(1)])
      finally show ?thesis .
    qed
  qed
qed

lemma page_loop_skips_unmerged:
  "(page_loop results s)\<lparr>unmerged := 0\<rparr> =
   (page_loop (filter (\<lambda>p. MergedAt p \<noteq> None) results) s)\<lparr>unmerged := 0\<rparr>"
proof (induction results arbitrary: s)
  case Nil
  show ?case by simp
next
  case (Cons result results)
  show ?case
  proof (cases "MergedAt result")
    case None
    have "(page_loop (result # results) s)\<lparr>unmerged := 0\<rparr> =
          (page_loop results (s\<lparr>unmerged := unmerged s + 1\<rparr>))\<lparr>unmerged := 0\<rparr>"
      using None by simp
    also have "\<dots> = (page_loop results s)\<lparr>unmerged := 0\<rparr>"
      by (rule page_loop_unmerged_counter)
    also have "\<dots> = (page_loop (filter (\<lambda>p. MergedAt p \<noteq> None) results) s)\<lparr>unmerged := 0\<rparr>"
      by (rule Cons.IH)
    finally show ?thesis
      using None by simp
  next
    case (Some m)
    then show ?thesis
      using Cons.IH by simp
  qed
qed

text \<open>
  Claim C9. A pull request is appended to \<open>prs\<close> only past the skip of line 115, so
  every candidate has a merge timestamp: the property is kept by every step of the loop
  over a page, by every turn of the fetch loop and by the whole loop, and it holds when
  the loop has ended, where it makes both dereferences of \<^verbatim>\<open>byMerged.Less\<close> safe for
  any two candidates. A pull request closed without a merge is skipped before anything
  else is looked at: but for the counter \<^verbatim>\<open>unmerged\<close>, the scan of a page ends in the
  state in which the scan of its merged pull requests alone ends.
\<close>

theorem candidates_merged:
  "((\<forall>p \<in> set (prs s). MergedAt p \<noteq> None) \<longrightarrow>
      (\<forall>p \<in> set (prs (page_loop results s)). MergedAt p \<noteq> None) \<and>
      (\<forall>p \<in> set (prs (fst (fetch_page answer s))). MergedAt p \<noteq> None) \<and>
      (\<forall>p \<in> set (prs (fst (fetch_loop answers s))). MergedAt p \<noteq> None)) \<and>
   (\<forall>a \<in> set (prs (fst (scan f gh))). \<forall>b \<in> set (prs (fst (scan f gh))).
      MergedAt a \<noteq> None \<and> Less a b \<noteq> None) \<and>
   (page_loop results s)\<lparr>unmerged := 0\<rparr> =
     (page_loop (filter (\<lambda>p. MergedAt p \<noteq> None) results) s)\<lparr>unmerged := 0\<rparr>"
proof -
  have "list_all is_merged (prs (fst (scan f gh)))"
    unfolding scan_def by (rule fetch_loop_merged) simp
  then have m: "\<And>p. p \<in> set (prs (fst (scan f gh))) \<Longrightarrow> is_merged p"
    by (simp add: list_all_iff)
  have cmp: "\<forall>a \<in> set (prs (fst (scan f gh))). \<forall>b \<in> set (prs (fst (scan f gh))).
      MergedAt a \<noteq> None \<and> Less a b \<noteq> None"
  proof (intro ballI)
    fix a b
    assume "a \<in> set (prs (fst (scan f gh)))" and "b \<in> set (prs (fst (scan f gh)))"
    then have "is_merged a" and "is_merged b"
      using m by blast+
    then show "MergedAt a \<noteq> None \<and> Less a b \<noteq> None"
      using Less_merged [of a b] by (simp add: is_merged_def)
  qed
  have inv: "(\<forall>p \<in> set (prs s). MergedAt p \<noteq> None) \<longrightarrow>
      (\<forall>p \<in> set (prs (page_loop results s)). MergedAt p \<noteq> None) \<and>
      (\<forall>p \<in> set (prs (fst (fetch_page answer s))). MergedAt p \<noteq> None) \<and>
      (\<forall>p \<in> set (prs (fst (fetch_loop answers s))). MergedAt p \<noteq> None)"
    unfolding all_merged_iff
    by (intro impI conjI; erule page_loop_merged fetch_page_merged fetch_loop_merged)
  from inv cmp page_loop_skips_unmerged [of results s] show ?thesis
    by (intro conjI)
qed

lemma example_scan:
  "prs (fst (scan example_flags example_github)) =
     [example_pr 30 (Some 300) 310, example_pr 20 (Some 200) 210,
      example_pr 17 (Some 170) 165, example_pr 15 (Some 150) 160,
      example_pr 5 (Some 50) 155]"
  "snd (scan example_flags example_github) = None"
  "snd (generate insertion_sort example_flags example_github) = None"
  by code_simp+

theorem candidates_merged_witness:
  "prs (fst (scan example_flags example_github)) =
     [example_pr 30 (Some 300) 310, example_pr 20 (Some 200) 210,
      example_pr 17 (Some 170) 165, example_pr 15 (Some 150) 160,
      example_pr 5 (Some 50) 155] \<and>
   MergedAt (example_pr 7 None 158) = None \<and>
   MergedAt (example_pr 30 (Some 300) 310) \<noteq> None \<and>
   Less (example_pr 30 (Some 300) 310) (example_pr 5 (Some 50) 155) \<noteq> None"
  using candidates_merged [of "start example_flags" example_page "Inr example_page"
      "[Inr example_page]" example_flags example_github] example_scan(1)
  by (simp add: example_pr_def)

subsection \<open>What a page adds to the candidates\<close>

lemma stops_cong:
  "last' s2 = last' s \<Longrightarrow> lastVersionMerged s2 = lastVersionMerged s \<Longrightarrow>
   stops s2 = stops s"
  by (intro ext) (simp add: stops_def)

lemma accumulated_cong:
  "last' s2 = last' s \<Longrightarrow> lastVersionMerged s2 = lastVersionMerged s \<Longrightarrow>
   accumulated s2 results = accumulated s results"
  using stops_cong [of s2 s] by (simp add: accumulated_def)

lemma stopped_at_cong:
  "last' s2 = last' s \<Longrightarrow> lastVersionMerged s2 = lastVersionMerged s \<Longrightarrow>
   stopped_at s2 results = stopped_at s results"
  using stops_cong [of s2 s] by (simp add: stopped_at_def)

lemma page_loop_skip:
  "MergedAt result = None \<Longrightarrow>
   page_loop (result # results) s = page_loop results (s\<lparr>unmerged := unmerged s + 1\<rparr>)"
  by simp

lemma page_loop_stop:
  "MergedAt result = Some m \<Longrightarrow> stops s result \<Longrightarrow>
   page_loop (result # results) s =
     (if Number result = last' s
      then emit [FoundLast (last' s)] (s\<lparr>lastVersionMerged := Some m\<rparr>)
      else s\<lparr>done' := True\<rparr>)"
  by (cases "Number result = last' s") (simp_all add: stops_def)

lemma page_loop_keep:
  "MergedAt result = Some m \<Longrightarrow> \<not> stops s result \<Longrightarrow>
   page_loop (result # results) s =
     page_loop results
       ((if Number result = current s
         then emit [FoundCurrent (current s)] (s\<lparr>currentVersionMerged := Some m\<rparr>)
         else s)
        \<lparr>prs := prs s @ [result], merged := merged s + 1\<rparr>)"
  by (simp add: stops_def)

lemma accumulated_skip: "MergedAt result = None \<Longrightarrow> accumulated s (result # results) = accumulated s results"
  by (simp add: accumulated_def stops_def)

lemma accumulated_stop: "stops s result \<Longrightarrow> accumulated s (result # results) = []"
  by (simp add: accumulated_def)

lemma accumulated_keep:
  "MergedAt result = Some m \<Longrightarrow> \<not> stops s result \<Longrightarrow>
   accumulated s (result # results) = result # accumulated s results"
  by (simp add: accumulated_def)

lemma stopped_at_stop: "stops s result \<Longrightarrow> stopped_at s (result # results) = Some result"
  by (simp add: stopped_at_def)

lemma stopped_at_pass:
  "\<not> stops s result \<Longrightarrow> stopped_at s (result # results) = stopped_at s results"
  by (simp add: stopped_at_def)

lemma not_stops_unmerged: "MergedAt result = None \<Longrightarrow> \<not> stops s result"
  by (simp add: stops_def)

lemma page_loop_prs:
  "prs (page_loop results s) = prs s @ accumulated s results"
proof (induction results arbitrary: s)
  case Nil
  show ?case by (simp add: accumulated_def)
next
  case (Cons result results)
  show ?case
  proof (cases "MergedAt result")
    case None
    let ?s2 = "s\<lparr>unmerged := Suc (unmerged s)\<rparr>"
    have c: "accumulated ?s2 results = accumulated s results"
      by (rule accumulated_cong) simp_all
    from None show ?thesis
      by (simp add: page_loop_skip accumulated_skip Cons.IH [of ?s2] c del: page_loop.simps split: option.splits)
  next
    case (Some m)
    show ?thesis
    proof (cases "stops s result")
      case True
      with Some show ?thesis
        by (simp add: page_loop_stop accumulated_stop del: page_loop.simps)
    next
      case False
      let ?s2 = "(if Number result = current s
         then emit [FoundCurrent (current s)] (s\<lparr>currentVersionMerged := Some m\<rparr>)
         else s)
        \<lparr>prs := prs s @ [result], merged := Suc (merged s)\<rparr>"
      have c: "accumulated ?s2 results = accumulated s results"
        by (rule accumulated_cong) simp_all
      from Some False show ?thesis
        by (simp add: page_loop_keep accumulated_keep Cons.IH [of ?s2] c del: page_loop.simps split: option.splits)
    qed
  qed
qed

lemma page_loop_lastVersionMerged:
  "lastVersionMerged (page_loop results s) =
     (case stopped_at s results of
        None \<Rightarrow> lastVersionMerged s
      | Some p \<Rightarrow> if Number p = last' s then MergedAt p else lastVersionMerged s)"
proof (induction results arbitrary: s)
  case Nil
  show ?case by (simp add: stopped_at_def)
next
  case (Cons result results)
  show ?case
  proof (cases "MergedAt result")
    case None
    let ?s2 = "s\<lparr>unmerged := Suc (unmerged s)\<rparr>"
    have c: "stopped_at ?s2 results = stopped_at s results"
      by (rule stopped_at_cong) simp_all
    from None show ?thesis
      by (simp add: page_loop_skip stopped_at_pass [OF not_stops_unmerged] Cons.IH [of ?s2] c del: page_loop.simps split: option.splits)
  next
    case (Some m)
    show ?thesis
    proof (cases "stops s result")
      case True
      with Some show ?thesis
        by (simp add: page_loop_stop stopped_at_stop del: page_loop.simps)
    next
      case False
      let ?s2 = "(if Number result = current s
         then emit [FoundCurrent (current s)] (s\<lparr>currentVersionMerged := Some m\<rparr>)
         else s)
        \<lparr>prs := prs s @ [result], merged := Suc (merged s)\<rparr>"
      have c: "stopped_at ?s2 results = stopped_at s results"
        by (rule stopped_at_cong) simp_all
      from Some False show ?thesis
        by (simp add: page_loop_keep stopped_at_pass Cons.IH [of ?s2] c del: page_loop.simps split: option.splits)
    qed
  qed
qed

lemma page_loop_done:
  "done' (page_loop results s) =
     (case stopped_at s results of
        None \<Rightarrow> done' s
      | Some p \<Rightarrow> if Number p = last' s then done' s else True)"
proof (induction results arbitrary: s)
  case Nil
  show ?case by (simp add: stopped_at_def)
next
  case (Cons result results)
  show ?case
  proof (cases "MergedAt result")
    case None
    let ?s2 = "s\<lparr>unmerged := Suc (unmerged s)\<rparr>"
    have c: "stopped_at ?s2 results = stopped_at s results"
      by (rule stopped_at_cong) simp_all
    from None show ?thesis
      by (simp add: page_loop_skip stopped_at_pass [OF not_stops_unmerged] Cons.IH [of ?s2] c del: page_loop.simps split: option.splits)
  next
    case (Some m)
    show ?thesis
    proof (cases "stops s result")
      case True
      with Some show ?thesis
        by (simp add: page_loop_stop stopped_at_stop del: page_loop.simps)
    next
      case False
      let ?s2 = "(if Number result = current s
         then emit [FoundCurrent (current s)] (s\<lparr>currentVersionMerged := Some m\<rparr>)
         else s)
        \<lparr>prs := prs s @ [result], merged := Suc (merged s)\<rparr>"
      have c: "stopped_at ?s2 results = stopped_at s results"
        by (rule stopped_at_cong) simp_all
      from Some False show ?thesis
        by (simp add: page_loop_keep stopped_at_pass Cons.IH [of ?s2] c del: page_loop.simps split: option.splits)
    qed
  qed
qed

lemma page_loop_currentVersionMerged:
  "currentVersionMerged (page_loop results s) =
     (if filter (\<lambda>p. Number p = current s) (accumulated s results) = [] then currentVersionMerged s
      else MergedAt (last (filter (\<lambda>p. Number p = current s) (accumulated s results))))"
proof (induction results arbitrary: s)
  case Nil
  show ?case by (simp add: accumulated_def)
next
  case (Cons result results)
  show ?case
  proof (cases "MergedAt result")
    case None
    let ?s2 = "s\<lparr>unmerged := Suc (unmerged s)\<rparr>"
    have c: "accumulated ?s2 results = accumulated s results"
      by (rule accumulated_cong) simp_all
    from None show ?thesis
      by (simp add: page_loop_skip accumulated_skip Cons.IH [of ?s2] c del: page_loop.simps split: option.splits)
  next
    case (Some m)
    show ?thesis
    proof (cases "stops s result")
      case True
      with Some show ?thesis
        by (simp add: page_loop_stop accumulated_stop del: page_loop.simps)
    next
      case False
      let ?s2 = "(if Number result = current s
         then emit [FoundCurrent (current s)] (s\<lparr>currentVersionMerged := Some m\<rparr>)
         else s)
        \<lparr>prs := prs s @ [result], merged := Suc (merged s)\<rparr>"
      have c: "accumulated ?s2 results = accumulated s results"
        by (rule accumulated_cong) simp_all
      from Some False show ?thesis
        by (simp add: page_loop_keep accumulated_keep Cons.IH [of ?s2] c del: page_loop.simps split: option.splits)
    qed
  qed
qed

text \<open>
  Claim C5, amended. The scan of a page skips the pull requests closed without a merge
  and stops at the first merged one that is numbered \<^verbatim>\<open>last\<close>, whose merge timestamp
  becomes the lower boundary, or that was updated before a known lower boundary, which
  ends the fetch. The candidates grow by exactly the merged pull requests before that
  point, so by none that meets the last boundary or the termination test, and by none
  after it. One numbered \<^verbatim>\<open>current\<close> is among them like any other, and the upper
  boundary becomes the merge timestamp of the last of them numbered \<^verbatim>\<open>current\<close>; it
  stays as it was when there is none.
\<close>

theorem page_scan_accumulates:
  "prs (page_loop results s) = prs s @ accumulated s results \<and>
   currentVersionMerged (page_loop results s) =
     (if filter (\<lambda>p. Number p = current s) (accumulated s results) = []
      then currentVersionMerged s
      else MergedAt (last (filter (\<lambda>p. Number p = current s) (accumulated s results)))) \<and>
   lastVersionMerged (page_loop results s) =
     (case stopped_at s results of
        None \<Rightarrow> lastVersionMerged s
      | Some p \<Rightarrow> if Number p = last' s then MergedAt p else lastVersionMerged s) \<and>
   done' (page_loop results s) =
     (case stopped_at s results of
        None \<Rightarrow> done' s
      | Some p \<Rightarrow> if Number p = last' s then done' s else True) \<and>
   (\<forall>p \<in> set (accumulated s results). Number p = current s \<longrightarrow>
      p \<in> set (prs (page_loop results s)) \<and>
      currentVersionMerged (page_loop results s) \<noteq> None)"
proof -
  have "p \<in> set (prs (page_loop results s)) \<and>
      currentVersionMerged (page_loop results s) \<noteq> None"
    if p: "p \<in> set (accumulated s results)" and c: "Number p = current s" for p
  proof -
    let ?cs = "filter (\<lambda>p. Number p = current s) (accumulated s results)"
    from p c have "p \<in> set ?cs" by simp
    then have ne: "?cs \<noteq> []" by (cases ?cs) simp_all
    then have "last ?cs \<in> set ?cs" by (rule last_in_set)
    then have "last ?cs \<in> set (accumulated s results)" by simp
    then have "MergedAt (last ?cs) \<noteq> None"
      unfolding accumulated_def by simp
    with ne p show ?thesis
      by (simp add: page_loop_prs page_loop_currentVersionMerged del: not_None_eq)
  qed
  then have current:
    "\<forall>p \<in> set (accumulated s results). Number p = current s \<longrightarrow>
      p \<in> set (prs (page_loop results s)) \<and>
      currentVersionMerged (page_loop results s) \<noteq> None"
    by blast
  from page_loop_prs [of results s] page_loop_currentVersionMerged [of results s]
    page_loop_lastVersionMerged [of results s] page_loop_done [of results s] current
  show ?thesis
    by (intro conjI)
qed

lemma example_pages:
  "accumulated (start example_flags) example_page =
     [example_pr 30 (Some 300) 310, example_pr 20 (Some 200) 210,
      example_pr 17 (Some 170) 165, example_pr 15 (Some 150) 160,
      example_pr 5 (Some 50) 155]"
  "stopped_at (start example_flags) example_page = Some (example_pr 10 (Some 100) 110)"
  "prs (page_loop example_page (start example_flags)) =
     [example_pr 30 (Some 300) 310, example_pr 20 (Some 200) 210,
      example_pr 17 (Some 170) 165, example_pr 15 (Some 150) 160,
      example_pr 5 (Some 50) 155]"
  "currentVersionMerged (page_loop example_page (start example_flags)) = Some 200"
  "lastVersionMerged (page_loop example_page (start example_flags)) = Some 100"
  "\<not> done' (page_loop example_page (start example_flags))"
  "accumulated (page_loop example_page (start example_flags)) later_page =
     [example_pr 12 (Some 120) 130]"
  "stopped_at (page_loop example_page (start example_flags)) later_page =
     Some (example_pr 3 (Some 30) 90)"
  "prs (page_loop later_page (page_loop example_page (start example_flags))) =
     [example_pr 30 (Some 300) 310, example_pr 20 (Some 200) 210,
      example_pr 17 (Some 170) 165, example_pr 15 (Some 150) 160,
      example_pr 5 (Some 50) 155, example_pr 12 (Some 120) 130]"
  "currentVersionMerged (page_loop later_page (page_loop example_page (start example_flags))) =
     Some 200"
  "done' (page_loop later_page (page_loop example_page (start example_flags)))"
  by code_simp+

theorem page_scan_accumulates_witness:
  "accumulated (start example_flags) example_page =
     [example_pr 30 (Some 300) 310, example_pr 20 (Some 200) 210,
      example_pr 17 (Some 170) 165, example_pr 15 (Some 150) 160,
      example_pr 5 (Some 50) 155] \<and>
   stopped_at (start example_flags) example_page = Some (example_pr 10 (Some 100) 110) \<and>
   prs (page_loop example_page (start example_flags)) =
     [example_pr 30 (Some 300) 310, example_pr 20 (Some 200) 210,
      example_pr 17 (Some 170) 165, example_pr 15 (Some 150) 160,
      example_pr 5 (Some 50) 155] \<and>
   currentVersionMerged (page_loop example_page (start example_flags)) = Some 200 \<and>
   lastVersionMerged (page_loop example_page (start example_flags)) = Some 100 \<and>
   \<not> done' (page_loop example_page (start example_flags)) \<and>
   accumulated (page_loop example_page (start example_flags)) later_page =
     [example_pr 12 (Some 120) 130] \<and>
   stopped_at (page_loop example_page (start example_flags)) later_page =
     Some (example_pr 3 (Some 30) 90) \<and>
   prs (page_loop later_page (page_loop example_page (start example_flags))) =
     [example_pr 30 (Some 300) 310, example_pr 20 (Some 200) 210,
      example_pr 17 (Some 170) 165, example_pr 15 (Some 150) 160,
      example_pr 5 (Some 50) 155, example_pr 12 (Some 120) 130] \<and>
   currentVersionMerged (page_loop later_page (page_loop example_page (start example_flags))) =
     Some 200 \<and>
   done' (page_loop later_page (page_loop example_page (start example_flags)))"
proof -
  note page_scan_accumulates [of example_page "start example_flags"]
    page_scan_accumulates [of later_page "page_loop example_page (start example_flags)"]
  with example_pages show ?thesis
    by (intro conjI)
qed

lemma example_page_scan:
  "Number (example_pr 20 (Some 200) 210) = current (start example_flags)"
  "currentVersionMerged (page_loop example_page (start example_flags)) = Some 200"
  "example_pr 20 (Some 200) 210 \<in> set (prs (page_loop example_page (start example_flags)))"
  "example_pr 20 (Some 200) 210 \<in> set example_page"
  "MergedAt (example_pr 20 (Some 200) 210) = Some 200"
  by code_simp+

text \<open>
  On the example page the pull request numbered \<^verbatim>\<open>current\<close> is merged, its merge
  timestamp is recorded as the upper boundary, and it is among the candidates after the
  page.
\<close>

theorem current_is_accumulated:
  "example_pr 20 (Some 200) 210 \<in> set example_page \<and>
   MergedAt (example_pr 20 (Some 200) 210) = Some 200 \<and>
   Number (example_pr 20 (Some 200) 210) = current (start example_flags) \<and>
   currentVersionMerged (page_loop example_page (start example_flags)) = Some 200 \<and>
   example_pr 20 (Some 200) 210 \<in> set (prs (page_loop example_page (start example_flags)))"
  using example_page_scan by (intro conjI)

subsection \<open>The default of the current boundary\<close>

lemma page_loop_current [simp]: "current (page_loop results s) = current s"
  by (induction results arbitrary: s) (simp_all split: option.splits)

lemma fetch_page_current_set:
  "current s \<noteq> 0 \<Longrightarrow> current (fst (fetch_page answer s)) = current s"
  by (simp add: fetch_page_def Let_def split: sum.splits list.splits del: page_loop.simps)

lemma fetch_page_current_unset:
  "current s = 0 \<Longrightarrow> current (fst (fetch_page (Inr (first # others)) s)) = Number first"
  by (simp add: fetch_page_def Let_def del: page_loop.simps)

lemma fetch_loop_current_set:
  assumes "current s \<noteq> 0"
  shows "current (fst (fetch_loop answers s)) = current s"
proof -
  have "current (fst (fetch_loop answers s)) = current s \<and> current s \<noteq> 0"
    by (rule fetch_loop_invariant [where I = "\<lambda>t. current t = current s \<and> current s \<noteq> 0"])
       (use assms in \<open>simp_all add: fetch_page_current_set\<close>)
  then show ?thesis ..
qed

lemma fetch_loop_current_first:
  assumes "current s = 0" and "Number first \<noteq> 0"
  shows "current (fst (fetch_loop (Inr (first # others) # answers) s)) = Number first"
proof (cases "fetch_page (Inr (first # others)) s")
  case (Pair s' st)
  with fetch_page_status [of "first # others" s] have st: "st = None" by simp
  from Pair fetch_page_current_unset [OF assms(1), of first others]
  have c: "current s' = Number first" by simp
  with assms(2) have "current (fst (fetch_loop answers s')) = Number first"
    by (simp add: fetch_loop_current_set)
  with Pair st c show ?thesis by simp
qed

text \<open>
  Claim C6. When \<^verbatim>\<open>current\<close> is zero and the first page is not empty, the first turn of
  the fetch loop sets it to the number of the first pull request of that page, merged or
  not. No turn of the loop assigns a \<^verbatim>\<open>current\<close> that is not zero, so it has that
  value when the loop ends, whatever pages follow, as long as the number is not zero: zero
  is what the program reads as unset, and GitHub numbers pull requests from 1.
\<close>

theorem current_defaults_to_first:
  assumes "current f = 0"
    and "PullRequests_List gh (owner f) (repository f) (base f) = Inr (first # others) # answers"
  shows "current (fst (fetch_page (Inr (first # others)) (start f))) = Number first \<and>
         (Number first \<noteq> 0 \<longrightarrow> current (fst (scan f gh)) = Number first) \<and>
         (\<forall>s answer. current s \<noteq> 0 \<longrightarrow> current (fst (fetch_page answer s)) = current s)"
  using assms
  by (simp add: scan_def fetch_page_current_unset fetch_loop_current_first
      fetch_page_current_set del: fetch_loop.simps)

lemma unset_run:
  "current (fst (scan unset_flags unmerged_first_github)) = 7"
  "prs (fst (scan unset_flags unmerged_first_github)) = [example_pr 5 (Some 50) 155]"
  "lastVersionMerged (fst (scan unset_flags unmerged_first_github)) = Some 100"
  "currentVersionMerged (fst (scan unset_flags unmerged_first_github)) = None"
  "snd (scan unset_flags unmerged_first_github) = None"
  "status (release_main insertion_sort unset_flags unmerged_first_github) = Returned"
  by code_simp+

theorem current_defaults_to_first_witness:
  "current unset_flags = 0 \<and>
   PullRequests_List unmerged_first_github (owner unset_flags) (repository unset_flags)
       (base unset_flags) =
     [Inr [example_pr 7 None 400, example_pr 5 (Some 50) 155, example_pr 10 (Some 100) 110]] \<and>
   Number (example_pr 7 None 400) = 7 \<and> MergedAt (example_pr 7 None 400) = None \<and>
   current (fst (scan unset_flags unmerged_first_github)) = 7"
  using current_defaults_to_first [of unset_flags unmerged_first_github
      "example_pr 7 None 400" "[example_pr 5 (Some 50) 155, example_pr 10 (Some 100) 110]" "[]"]
    unset_run(1)
  by (simp add: unset_flags_def unmerged_first_github_def example_pr_def example_flags_def)

subsection \<open>The note loop\<close>

lemma in_window_cong:
  "lastVersionMerged s = lastVersionMerged s0 \<Longrightarrow>
   currentVersionMerged s = currentVersionMerged s0 \<Longrightarrow> in_window s p = in_window s0 p"
  by (simp add: in_window_def split: option.splits)

lemma in_window_True:
  "in_window s p = Some True \<longleftrightarrow>
    (\<exists>l m c. lastVersionMerged s = Some l \<and> MergedAt p = Some m \<and>
       currentVersionMerged s = Some c \<and> l < m \<and> m < c)"
  by (auto simp add: in_window_def split: option.splits)



lemma label_loop_replicate:
  "label_loop pr labels buffer =
     buffer @ replicate (length (filter (\<lambda>l. l = ''release-note'') labels)) pr"
  by (induction labels arbitrary: buffer) (simp_all add: replicate_app_Cons_same)

lemma label_loop_all:
  "list_all Q buffer \<Longrightarrow> (''release-note'' \<in> set labels \<Longrightarrow> Q pr) \<Longrightarrow>
   list_all Q (label_loop pr labels buffer)"
  by (auto simp add: label_loop_replicate list_all_iff filter_empty_conv)

lemma notes_loop_frame:
  "lastVersionMerged (fst (fst (notes_loop gh cs s b))) = lastVersionMerged s \<and>
   currentVersionMerged (fst (fst (notes_loop gh cs s b))) = currentVersionMerged s \<and>
   current (fst (fst (notes_loop gh cs s b))) = current s \<and>
   prs (fst (fst (notes_loop gh cs s b))) = prs s \<and>
   same_flags s (fst (fst (notes_loop gh cs s b)))"
  by (induction cs arbitrary: s b)
     (simp_all add: Let_def same_flags_def split: option.splits bool.splits sum.splits)

lemma notes_loop_same_flags: "same_flags s (fst (fst (notes_loop gh cs s b)))"
  using notes_loop_frame [of gh cs s b] by simp

lemma notes_loop_sleeps:
  "sleeps_after_labels (out s) \<Longrightarrow>
   sleeps_after_labels (out (fst (fst (notes_loop gh cs s b))))"
  by (induction cs arbitrary: s b)
     (simp_all add: Let_def sleeps_after_labels_append
        split: option.splits bool.splits sum.splits)

lemma notes_loop_no_release:
  "filter is_CreateRelease (out (fst (fst (notes_loop gh cs s b)))) =
   filter is_CreateRelease (out s)"
  by (induction cs arbitrary: s b)
     (simp_all add: Let_def split: option.splits bool.splits sum.splits)

lemma notes_loop_window_gen:
  "lastVersionMerged s = lastVersionMerged s0 \<Longrightarrow>
   currentVersionMerged s = currentVersionMerged s0 \<Longrightarrow>
   list_all (\<lambda>p. in_window s0 p = Some True) b \<Longrightarrow>
   list_all (\<lambda>p. in_window s0 p = Some True) (snd (fst (notes_loop gh cs s b)))"
proof (induction cs arbitrary: s b)
  case Nil
  then show ?case by simp
next
  case (Cons pr rest)
  have w: "in_window s pr = in_window s0 pr"
    using Cons.prems(1,2) by (rule in_window_cong)
  show ?case
    using Cons.prems w
    by (auto simp add: Let_def split: option.splits bool.splits sum.splits
        intro!: Cons.IH label_loop_all)
qed

lemma notes_loop_window:
  "list_all (\<lambda>p. in_window s p = Some True) (snd (fst (notes_loop gh cs s [])))"
  by (rule notes_loop_window_gen) simp_all

subsection \<open>A run as a whole\<close>

lemma note_list_finish [simp]: "note_list (finish s st b) = b"
  and status_finish [simp]: "status (finish s st b) = st"
  and trace_finish [simp]: "trace (finish s st b) = out s"
  by (simp_all add: finish_def)

lemma note_list_publish [simp]: "note_list (publish gh s b) = b"
  by (simp add: publish_def Let_def split: sum.splits)

lemma note_list_release_main:
  "note_list (release_main srt f gh) = snd (fst (generate srt f gh))"
  by (simp add: release_main_def split: prod.splits option.splits)

lemma release_main_publish:
  "snd (generate srt f gh) = None \<Longrightarrow>
   release_main srt f gh =
     publish gh (fst (fst (generate srt f gh))) (snd (fst (generate srt f gh)))"
  by (cases "generate srt f gh"; cases "fst (generate srt f gh)") (simp_all add: release_main_def)

lemma release_main_finish:
  "snd (generate srt f gh) = Some st \<Longrightarrow>
   release_main srt f gh =
     finish (fst (fst (generate srt f gh))) st (snd (fst (generate srt f gh)))"
  by (cases "generate srt f gh"; cases "fst (generate srt f gh)") (simp_all add: release_main_def)



lemma publish_without_names:
  "tagName s = [] \<or> releaseName s = [] \<Longrightarrow>
   publish gh s b =
     \<lparr>trace = out s @ [Newline, NotesHeader (last' s) (current s) (base s),
                       NotesBlock (buffer_bytes b), ReleaseUsage],
      status = Exit 1, note_list = b\<rparr>"
  by (simp add: publish_def finish_def Let_def)

lemma publish_with_names:
  "tagName s \<noteq> [] \<Longrightarrow> releaseName s \<noteq> [] \<Longrightarrow>
   publish gh s b =
     (let release = \<lparr>TagName = tagName s, Name = releaseName s, Prerelease = preRelease s,
                     Body = buffer_bytes b\<rparr>;
          es = out s @ [Newline, NotesHeader (last' s) (current s) (base s),
                        NotesBlock (buffer_bytes b),
                        CreateRelease ''zjj2wry'' ''console-web'' release]
      in case Repositories_CreateRelease gh ''zjj2wry'' ''console-web'' release of
           Inl err \<Rightarrow> \<lparr>trace = es @ [ErrorRelease err], status = Exit 1, note_list = b\<rparr>
         | Inr url \<Rightarrow> \<lparr>trace = es @ [ReleaseURL url], status = Returned, note_list = b\<rparr>)"
  by (simp add: publish_def finish_def Let_def split: sum.splits)

lemma generate_same_flags: "same_flags (start f) (fst (fst (generate srt f gh)))"
proof (cases "scan f gh")
  case (Pair s st)
  with scan_same_flags [of f gh] have s: "same_flags (start f) s" by simp
  have "same_flags (start f) (fst (fst (notes_loop gh cs s [])))" for cs
    using s notes_loop_same_flags by (rule same_flags_trans)
  with Pair s show ?thesis
    by (simp add: generate_def split: option.splits)
qed

lemma generate_no_release:
  "filter is_CreateRelease (out (fst (fst (generate srt f gh)))) = []"
proof (cases "scan f gh")
  case (Pair s st)
  with scan_no_release [of f gh] have "filter is_CreateRelease (out s) = []" by simp
  with Pair show ?thesis
    by (simp add: generate_def notes_loop_no_release split: option.splits)
qed

lemma generate_sleeps: "sleeps_after_labels (out (fst (fst (generate srt f gh))))"
proof (cases "scan f gh")
  case (Pair s st)
  with scan_sleeps [of f gh] have "sleeps_after_labels (out s)" by simp
  with Pair show ?thesis
    by (simp add: generate_def notes_loop_sleeps split: option.splits)
qed


lemma trace_release_main:
  "\<exists>es. trace (release_main srt f gh) = out (fst (fst (generate srt f gh))) @ es \<and>
        sleeps_after_labels es"
proof (cases "snd (generate srt f gh)")
  case None
  show ?thesis
    by (simp add: release_main_publish [OF None] publish_def finish_def Let_def
        split: sum.splits)
next
  case (Some st)
  show ?thesis
    by (simp add: release_main_finish [OF Some])
qed

subsection \<open>The notes lie between the boundaries\<close>

lemma generate_window:
  "list_all (\<lambda>p. in_window (fst (scan f gh)) p = Some True) (snd (fst (generate srt f gh)))"
  by (simp add: generate_def notes_loop_window split: prod.splits option.splits)

text \<open>
  Claim C1. Whatever the pages fetched, the sort and the answers of GitHub, and however
  the run ends, every pull request written to the buffer has a merge timestamp strictly
  between the merge timestamps that the fetch loop recorded for the last and the current
  boundary; in particular both were recorded.
\<close>

theorem notes_within_boundaries:
  "\<forall>p \<in> set (note_list (release_main srt f gh)).
     \<exists>l m c. lastVersionMerged (fst (scan f gh)) = Some l \<and> MergedAt p = Some m \<and>
       currentVersionMerged (fst (scan f gh)) = Some c \<and> l < m \<and> m < c"
  using generate_window [of f gh srt]
  by (simp add: note_list_release_main list_all_iff in_window_True)

lemma example_run:
  "note_list (release_main insertion_sort example_flags example_github) =
     [example_pr 15 (Some 150) 160, example_pr 17 (Some 170) 165]"
  "lastVersionMerged (fst (scan example_flags example_github)) = Some 100"
  "currentVersionMerged (fst (scan example_flags example_github)) = Some 200"
  apply code_simp
  apply code_simp
  apply code_simp
  done

theorem notes_within_boundaries_witness:
  "note_list (release_main insertion_sort example_flags example_github) =
     [example_pr 15 (Some 150) 160, example_pr 17 (Some 170) 165] \<and>
   lastVersionMerged (fst (scan example_flags example_github)) = Some 100 \<and>
   MergedAt (example_pr 15 (Some 150) 160) = Some 150 \<and>
   currentVersionMerged (fst (scan example_flags example_github)) = Some 200"
  using notes_within_boundaries [of insertion_sort example_flags example_github] example_run
  by (simp add: example_pr_def)

subsection \<open>Sorting by merge time\<close>

lemma merged_le_refl: "is_merged p \<Longrightarrow> merged_le p p"
  by (cases "MergedAt p") (simp_all add: is_merged_def merged_le_def)

lemma merged_le_trans: "merged_le a b \<Longrightarrow> merged_le b c \<Longrightarrow> merged_le a c"
  by (cases "MergedAt a"; cases "MergedAt b"; cases "MergedAt c")
     (simp_all add: merged_le_def)

lemma merged_le_iff_not_Less:
  "is_merged a \<Longrightarrow> is_merged b \<Longrightarrow> merged_le a b \<longleftrightarrow> Less b a \<noteq> Some True"
  by (cases "MergedAt a"; cases "MergedAt b")
     (simp_all add: is_merged_def merged_le_def Less_def not_less)

lemma merged_le_total:
  "is_merged a \<Longrightarrow> is_merged b \<Longrightarrow> Less a b \<noteq> Some True \<Longrightarrow> merged_le b a"
  by (simp add: merged_le_iff_not_Less)

lemma Less_merged_le: "Less a b = Some True \<Longrightarrow> merged_le a b"
  by (cases "MergedAt a"; cases "MergedAt b") (simp_all add: merged_le_def Less_def)

lemma sorted_wrt_replicate: "R x x \<Longrightarrow> sorted_wrt R (replicate k x)"
  by (induction k) simp_all

lemma sorted_wrt_repeat:
  "sorted_wrt R (b @ pr # rest) \<Longrightarrow> R pr pr \<Longrightarrow> sorted_wrt R ((b @ replicate k pr) @ rest)"
  by (auto simp add: sorted_wrt_append sorted_wrt_replicate)

lemma sorted_wrt_merged_le_Less:
  "sorted_wrt merged_le ys \<Longrightarrow> sorted_wrt (\<lambda>a b. Less b a \<noteq> Some True) ys"
proof (rule sorted_wrt_mono_rel)
  fix a b
  assume "merged_le a b"
  then show "Less b a \<noteq> Some True"
    by (cases "MergedAt a"; cases "MergedAt b") (simp_all add: merged_le_def Less_def)
qed

lemma sorted_wrt_Less_merged_le:
  assumes "list_all is_merged ys" and "sorted_wrt (\<lambda>a b. Less b a \<noteq> Some True) ys"
  shows "sorted_wrt merged_le ys"
  using _ assms(2)
proof (rule sorted_wrt_mono_rel)
  fix a b
  assume "a \<in> set ys" and "b \<in> set ys" and "Less b a \<noteq> Some True"
  with assms(1) show "merged_le a b"
    by (simp add: list_all_iff merged_le_iff_not_Less)
qed

lemma set_insert_byMerged: "set (insert_byMerged p qs) = insert p (set qs)"
  by (induction qs) auto

lemma mset_insert_byMerged: "mset (insert_byMerged p qs) = add_mset p (mset qs)"
  by (induction qs) simp_all

lemma sorted_insert_byMerged:
  "is_merged p \<Longrightarrow> list_all is_merged qs \<Longrightarrow> sorted_wrt merged_le qs \<Longrightarrow>
   sorted_wrt merged_le (insert_byMerged p qs)"
proof (induction qs)
  case Nil
  then show ?case by simp
next
  case (Cons q qs)
  from Cons.prems have q: "is_merged q" and qs: "list_all is_merged qs"
    and sorted_qs: "sorted_wrt merged_le qs" and above: "\<forall>x \<in> set qs. merged_le q x"
    by simp_all
  show ?case
  proof (cases "Less q p = Some True")
    case True
    then have "merged_le q p" by (rule Less_merged_le)
    with True above Cons.IH [OF Cons.prems(1) qs sorted_qs] show ?thesis
      by (simp add: set_insert_byMerged)
  next
    case False
    with Cons.prems(1) q have pq: "merged_le p q" by (simp add: merged_le_total)
    then have "\<forall>x \<in> set qs. merged_le p x"
      using above merged_le_trans by blast
    with False pq above sorted_qs show ?thesis by simp
  qed
qed

lemma mset_foldr_insert: "mset (foldr insert_byMerged xs []) = mset xs"
  by (induction xs) (simp_all add: mset_insert_byMerged)

lemma sorted_foldr_insert:
  "list_all is_merged xs \<Longrightarrow> sorted_wrt merged_le (foldr insert_byMerged xs [])"
proof (induction xs)
  case Nil
  then show ?case by simp
next
  case (Cons x xs)
  then have "is_merged x" and "list_all is_merged xs" by simp_all
  moreover have "list_all is_merged (foldr insert_byMerged xs [])"
    using \<open>list_all is_merged xs\<close> mset_foldr_insert [of xs]
    by (metis list_all_iff set_mset_mset)
  ultimately show ?case
    using Cons.IH by (simp add: sorted_insert_byMerged)
qed

lemma insertion_sort_contract: "sort_contract insertion_sort"
  unfolding sort_contract_def
proof (intro allI impI)
  fix xs :: "pull_request list"
  assume "\<forall>p \<in> set xs. MergedAt p \<noteq> None"
  then have m: "list_all is_merged xs"
    by (simp only: all_merged_iff)
  then have "\<not> (\<exists>p \<in> set xs. MergedAt p = None)"
    by (simp add: list_all_iff is_merged_def)
  then have "insertion_sort xs = Some (foldr insert_byMerged xs [])"
    by (simp add: insertion_sort_def)
  with m show "\<exists>ys. insertion_sort xs = Some ys \<and> mset ys = mset xs \<and>
      sorted_wrt (\<lambda>a b. Less b a \<noteq> Some True) ys"
    by (simp add: mset_foldr_insert sorted_foldr_insert sorted_wrt_merged_le_Less)
qed

subsection \<open>The notes are ordered\<close>

lemma notes_loop_sorted:
  "sorted_wrt merged_le (b @ cs) \<Longrightarrow> list_all is_merged cs \<Longrightarrow>
   sorted_wrt merged_le (snd (fst (notes_loop gh cs s b)))"
proof (induction cs arbitrary: s b)
  case Nil
  then show ?case by simp
next
  case (Cons pr rest)
  from Cons.prems have skip: "sorted_wrt merged_le (b @ rest)"
    and keep: "sorted_wrt merged_le ((b @ [pr]) @ rest)"
    and buf: "sorted_wrt merged_le b"
    and rest: "list_all is_merged rest"
    by (simp_all add: sorted_wrt_append)
  from Cons.prems have labelled: "sorted_wrt merged_le ((b @ replicate k pr) @ rest)" for k
    by (intro sorted_wrt_repeat merged_le_refl) simp_all
  show ?case
    by (simp add: Let_def label_loop_replicate buf Cons.IH [OF skip rest]
        Cons.IH [OF keep rest] Cons.IH [OF labelled rest]
        split: option.splits bool.splits sum.splits)
qed

lemma generate_sorted:
  assumes "sort_contract srt"
  shows "sorted_wrt merged_le (snd (fst (generate srt f gh)))"
proof (cases "scan f gh")
  case (Pair s st)
  have m: "list_all is_merged (prs s)"
    using scan_merged [of f gh] Pair by simp
  then have "\<forall>p \<in> set (prs s). MergedAt p \<noteq> None"
    by (simp only: all_merged_iff)
  with assms obtain ys where ys: "srt (prs s) = Some ys" "mset ys = mset (prs s)"
      "sorted_wrt (\<lambda>a b. Less b a \<noteq> Some True) ys"
    unfolding sort_contract_def by blast
  from ys(2) m have mys: "list_all is_merged ys"
    by (metis list_all_iff set_mset_mset)
  with ys(3) have "sorted_wrt merged_le ([] @ ys)"
    by (simp add: sorted_wrt_Less_merged_le)
  then have "sorted_wrt merged_le (snd (fst (notes_loop gh ys s [])))"
    using mys by (rule notes_loop_sorted)
  with Pair ys(1) show ?thesis
    by (simp add: generate_def split: option.splits)
qed

text \<open>
  Claim C2. With a sort that keeps the contract of \<^verbatim>\<open>sort.Sort\<close>, the pull requests
  written to the buffer come in non-decreasing order of merge timestamp, whatever the
  order in which they were fetched and however the sort orders equal merge times.
\<close>

theorem notes_ordered_by_merge_time:
  assumes "sort_contract srt"
  shows "sorted_wrt (\<lambda>a b. \<exists>x y. MergedAt a = Some x \<and> MergedAt b = Some y \<and> x \<le> y)
           (note_list (release_main srt f gh))"
proof -
  have "merged_le = (\<lambda>a b. \<exists>x y. MergedAt a = Some x \<and> MergedAt b = Some y \<and> x \<le> y)"
    by (intro ext) (simp add: merged_le_def split: option.splits)
  with generate_sorted [OF assms, of f gh] show ?thesis
    by (simp add: note_list_release_main)
qed

theorem notes_ordered_by_merge_time_witness:
  "sort_contract insertion_sort \<and>
   note_list (release_main insertion_sort example_flags example_github) =
     [example_pr 15 (Some 150) 160, example_pr 17 (Some 170) 165] \<and>
   sorted_wrt (\<lambda>a b. \<exists>x y. MergedAt a = Some x \<and> MergedAt b = Some y \<and> x \<le> y)
     (note_list (release_main insertion_sort example_flags example_github))"
  using notes_ordered_by_merge_time [OF insertion_sort_contract, of example_flags example_github]
    insertion_sort_contract example_run(1)
  by simp

subsection \<open>The label filter\<close>

lemma notes_loop_labelled:
  "relnoteFilter s \<Longrightarrow> owner s = ow \<Longrightarrow> repository s = re \<Longrightarrow>
   list_all (labelled gh ow re) b \<Longrightarrow>
   list_all (labelled gh ow re) (snd (fst (notes_loop gh cs s b)))"
proof (induction cs arbitrary: s b)
  case Nil
  then show ?case by simp
next
  case (Cons pr rest)
  let ?s1 = "emit [Dot, ListLabelsByIssue (owner s) (repository s) (Number pr), Sleep 5] s"
  have step: "list_all (labelled gh ow re) (snd (fst (notes_loop gh rest ?s1 (label_loop pr labels b))))"
    if "Issues_ListLabelsByIssue gh (owner s) (repository s) (Number pr) = Inr labels" for labels
  proof (rule Cons.IH)
    show "list_all (labelled gh ow re) (label_loop pr labels b)"
      using Cons.prems(4)
    proof (rule label_loop_all)
      assume "''release-note'' \<in> set labels"
      with that Cons.prems(2,3) show "labelled gh ow re pr"
        unfolding labelled_def by blast
    qed
  qed (use Cons.prems in simp_all)
  have skip: "list_all (labelled gh ow re) (snd (fst (notes_loop gh rest s b)))"
    using Cons.prems by (intro Cons.IH)
  show ?case
    using Cons.prems(1,4) skip step
    by (simp add: Let_def split: option.splits bool.splits sum.splits)
qed

lemma notes_loop_called:
  "relnoteFilter s \<Longrightarrow> owner s = ow \<Longrightarrow> repository s = re \<Longrightarrow>
   list_all (\<lambda>p. ListLabelsByIssue ow re (Number p) \<in> set (out s)) b \<Longrightarrow>
   list_all (\<lambda>p. ListLabelsByIssue ow re (Number p)
                \<in> set (out (fst (fst (notes_loop gh cs s b)))))
     (snd (fst (notes_loop gh cs s b)))"
proof (induction cs arbitrary: s b)
  case Nil
  then show ?case by simp
next
  case (Cons pr rest)
  let ?s1 = "emit [Dot, ListLabelsByIssue (owner s) (repository s) (Number pr), Sleep 5] s"
  have b1: "list_all (\<lambda>p. ListLabelsByIssue ow re (Number p) \<in> set (out ?s1)) b"
    using Cons.prems(4) by (simp add: list_all_iff)
  have step: "list_all (\<lambda>p. ListLabelsByIssue ow re (Number p)
                \<in> set (out (fst (fst (notes_loop gh rest ?s1 (label_loop pr labels b))))))
     (snd (fst (notes_loop gh rest ?s1 (label_loop pr labels b))))" for labels
  proof (rule Cons.IH)
    show "list_all (\<lambda>p. ListLabelsByIssue ow re (Number p) \<in> set (out ?s1))
            (label_loop pr labels b)"
      using b1
    proof (rule label_loop_all)
      show "ListLabelsByIssue ow re (Number pr) \<in> set (out ?s1)"
        using Cons.prems(2,3) by simp
    qed
  qed (use Cons.prems in simp_all)
  have skip: "list_all (\<lambda>p. ListLabelsByIssue ow re (Number p)
                \<in> set (out (fst (fst (notes_loop gh rest s b)))))
     (snd (fst (notes_loop gh rest s b)))"
    using Cons.prems by (intro Cons.IH)
  show ?case
    using Cons.prems(1,4) b1 skip step
    by (simp add: Let_def split: option.splits bool.splits sum.splits)
qed

lemma generate_labelled:
  assumes "relnoteFilter f"
  shows "list_all (\<lambda>p. labelled gh (owner f) (repository f) p \<and>
            ListLabelsByIssue (owner f) (repository f) (Number p)
              \<in> set (out (fst (fst (generate srt f gh)))))
          (snd (fst (generate srt f gh)))"
proof (cases "scan f gh")
  case (Pair s st)
  with scan_same_flags [of f gh] assms
  have s: "relnoteFilter s" "owner s = owner f" "repository s = repository f"
    by (simp_all add: same_flags_def)
  have "list_all (labelled gh (owner f) (repository f)) (snd (fst (notes_loop gh cs s [])))"
    and "list_all (\<lambda>p. ListLabelsByIssue (owner f) (repository f) (Number p)
                \<in> set (out (fst (fst (notes_loop gh cs s [])))))
     (snd (fst (notes_loop gh cs s [])))" for cs
    using s by (simp_all add: notes_loop_labelled notes_loop_called)
  then have "list_all (\<lambda>p. labelled gh (owner f) (repository f) p \<and>
            ListLabelsByIssue (owner f) (repository f) (Number p)
              \<in> set (out (fst (fst (notes_loop gh cs s [])))))
          (snd (fst (notes_loop gh cs s [])))" for cs
    by (simp add: list_all_iff)
  with Pair show ?thesis
    by (simp add: generate_def split: option.splits)
qed

text \<open>
  Claim C7. With the label filter on, every pull request written to the buffer is one for
  which the labels were requested, with the owner and repository of the flags, and the
  answer held a label named \<^verbatim>\<open>release-note\<close>. In every run, filter on or off, each
  request for labels is followed at once by a sleep of five seconds, also when the
  request failed.
\<close>

theorem label_filter:
  assumes "relnoteFilter f"
  shows "(\<forall>p \<in> set (note_list (release_main srt f gh)).
            (\<exists>labels. Issues_ListLabelsByIssue gh (owner f) (repository f) (Number p) = Inr labels \<and>
               ''release-note'' \<in> set labels) \<and>
            ListLabelsByIssue (owner f) (repository f) (Number p)
              \<in> set (trace (release_main srt f gh))) \<and>
         sleeps_after_labels (trace (release_main srt f gh))"
proof -
  obtain es where es: "trace (release_main srt f gh) = out (fst (fst (generate srt f gh))) @ es"
      "sleeps_after_labels es"
    using trace_release_main by blast
  have "sleeps_after_labels (trace (release_main srt f gh))"
    unfolding es(1) using generate_sleeps es(2) by (rule sleeps_after_labels_append)
  moreover have "\<forall>p \<in> set (note_list (release_main srt f gh)).
            (\<exists>labels. Issues_ListLabelsByIssue gh (owner f) (repository f) (Number p) = Inr labels \<and>
               ''release-note'' \<in> set labels) \<and>
            ListLabelsByIssue (owner f) (repository f) (Number p)
              \<in> set (trace (release_main srt f gh))"
    using generate_labelled [OF assms, of gh srt]
    by (simp add: note_list_release_main list_all_iff es(1) labelled_def)
  ultimately show ?thesis by (intro conjI)
qed

lemma filtered_run:
  "relnoteFilter filtered_flags"
  "note_list (release_main insertion_sort filtered_flags example_github) =
     [example_pr 15 (Some 150) 160]"
  "Issues_ListLabelsByIssue example_github (owner filtered_flags) (repository filtered_flags) 15 =
     Inr [''bug'', ''release-note'']"
  "Issues_ListLabelsByIssue example_github (owner filtered_flags) (repository filtered_flags) 17 =
     Inr []"
  "filter is_ListLabelsByIssue (trace (release_main insertion_sort filtered_flags example_github)) =
     [ListLabelsByIssue ''caicloud'' ''console-web'' 15,
      ListLabelsByIssue ''caicloud'' ''console-web'' 17]"
  "sleeps_after_labels (trace (release_main insertion_sort filtered_flags example_github))"
  by code_simp+

lemma failing_labels_run:
  "trace (release_main insertion_sort filtered_flags failing_labels_github) =
     [FetchingPage 1, PullRequestsList ''caicloud'' ''console-web'' ''master'' 1,
      FoundCurrent 20, FoundLast 10, PageSummary 5 1, FetchingPage 2,
      PullRequestsList ''caicloud'' ''console-web'' ''master'' 2, Dot,
      ListLabelsByIssue ''caicloud'' ''console-web'' 15, Sleep 5,
      ErrorContacting ''rate limit exceeded'']"
  "status (release_main insertion_sort filtered_flags failing_labels_github) = Exit 1"
  "sleeps_after_labels (trace (release_main insertion_sort filtered_flags failing_labels_github))"
  by code_simp+

theorem label_filter_witness:
  "relnoteFilter filtered_flags \<and>
   note_list (release_main insertion_sort filtered_flags example_github) =
     [example_pr 15 (Some 150) 160] \<and>
   Issues_ListLabelsByIssue example_github (owner filtered_flags) (repository filtered_flags) 15 =
     Inr [''bug'', ''release-note''] \<and>
   Issues_ListLabelsByIssue example_github (owner filtered_flags) (repository filtered_flags) 17 =
     Inr [] \<and>
   filter is_ListLabelsByIssue (trace (release_main insertion_sort filtered_flags example_github)) =
     [ListLabelsByIssue ''caicloud'' ''console-web'' 15,
      ListLabelsByIssue ''caicloud'' ''console-web'' 17] \<and>
   sleeps_after_labels (trace (release_main insertion_sort filtered_flags example_github)) \<and>
   trace (release_main insertion_sort filtered_flags failing_labels_github) =
     [FetchingPage 1, PullRequestsList ''caicloud'' ''console-web'' ''master'' 1,
      FoundCurrent 20, FoundLast 10, PageSummary 5 1, FetchingPage 2,
      PullRequestsList ''caicloud'' ''console-web'' ''master'' 2, Dot,
      ListLabelsByIssue ''caicloud'' ''console-web'' 15, Sleep 5,
      ErrorContacting ''rate limit exceeded''] \<and>
   status (release_main insertion_sort filtered_flags failing_labels_github) = Exit 1 \<and>
   sleeps_after_labels (trace (release_main insertion_sort filtered_flags failing_labels_github))"
proof -
  note label_filter [OF filtered_run(1), of insertion_sort example_github]
    label_filter [OF filtered_run(1), of insertion_sort failing_labels_github]
  with filtered_run failing_labels_run show ?thesis
    by (intro conjI)
qed

lemma twice_run:
  "Issues_ListLabelsByIssue twice_labelled_github (owner filtered_flags)
       (repository filtered_flags) 15 =
     Inr [''release-note'', ''release-note'']"
  "note_list (release_main insertion_sort filtered_flags twice_labelled_github) =
     [example_pr 15 (Some 150) 160, example_pr 15 (Some 150) 160]"
  "filter is_ListLabelsByIssue
       (trace (release_main insertion_sort filtered_flags twice_labelled_github)) =
     [ListLabelsByIssue ''caicloud'' ''console-web'' 15,
      ListLabelsByIssue ''caicloud'' ''console-web'' 17]"
  "NotesBlock (note_line (example_pr 15 (Some 150) 160) @
               note_line (example_pr 15 (Some 150) 160))
     \<in> set (trace (release_main insertion_sort filtered_flags twice_labelled_github))"
  by code_simp+

text \<open>
  Claim C10. The loop over the labels writes the line of the pull request once for each
  label named \<^verbatim>\<open>release-note\<close>. In the run where GitHub answers two such labels for
  number 15, with the label filter on, the buffer holds number 15 twice and the notes
  printed hold its line twice, after one request for its labels.
\<close>

theorem note_for_each_label:
  "label_loop pr labels buffer =
     buffer @ replicate (length (filter (\<lambda>label. label = ''release-note'') labels)) pr \<and>
   Issues_ListLabelsByIssue twice_labelled_github (owner filtered_flags)
       (repository filtered_flags) 15 =
     Inr [''release-note'', ''release-note''] \<and>
   note_list (release_main insertion_sort filtered_flags twice_labelled_github) =
     [example_pr 15 (Some 150) 160, example_pr 15 (Some 150) 160] \<and>
   filter is_ListLabelsByIssue
       (trace (release_main insertion_sort filtered_flags twice_labelled_github)) =
     [ListLabelsByIssue ''caicloud'' ''console-web'' 15,
      ListLabelsByIssue ''caicloud'' ''console-web'' 17] \<and>
   NotesBlock (note_line (example_pr 15 (Some 150) 160) @
               note_line (example_pr 15 (Some 150) 160))
     \<in> set (trace (release_main insertion_sort filtered_flags twice_labelled_github))"
  using label_loop_replicate [of pr labels buffer] twice_run by (intro conjI)

subsection \<open>Faults of the note loop\<close>






subsection \<open>Publishing the release\<close>

text \<open>
  Claim C3. A run that reaches line 162 with a tag name and a release name makes exactly
  one call of \<^verbatim>\<open>CreateRelease\<close>, for the owner \<^verbatim>\<open>zjj2wry\<close> and the repository
  \<^verbatim>\<open>console-web\<close> whatever the flags \<^verbatim>\<open>--owner\<close> and \<^verbatim>\<open>--repository\<close> are, with the
  bytes of the buffer as the body. When the call succeeds the run prints the URL of the
  release last and returns; when it fails the run exits with status 1.
\<close>

theorem publish_target_hard_coded:
  assumes "snd (generate srt f gh) = None" and "tagName f \<noteq> []" and "releaseName f \<noteq> []"
  shows "filter is_CreateRelease (trace (release_main srt f gh)) =
           [CreateRelease ''zjj2wry'' ''console-web''
              \<lparr>TagName = tagName f, Name = releaseName f, Prerelease = preRelease f,
               Body = buffer_bytes (note_list (release_main srt f gh))\<rparr>] \<and>
         (case Repositories_CreateRelease gh ''zjj2wry'' ''console-web''
                 \<lparr>TagName = tagName f, Name = releaseName f, Prerelease = preRelease f,
                  Body = buffer_bytes (note_list (release_main srt f gh))\<rparr> of
            Inl err \<Rightarrow> status (release_main srt f gh) = Exit 1
          | Inr url \<Rightarrow> status (release_main srt f gh) = Returned \<and>
               last (trace (release_main srt f gh)) = ReleaseURL url)"
proof -
  let ?s = "fst (fst (generate srt f gh))"
  have flags: "tagName ?s = tagName f" "releaseName ?s = releaseName f"
      "preRelease ?s = preRelease f"
    using generate_same_flags [of f srt gh] by (simp_all add: same_flags_def)
  have quiet: "filter is_CreateRelease (out ?s) = []"
    by (rule generate_no_release)
  show ?thesis
    using assms(2,3) quiet
    by (simp add: release_main_publish [OF assms(1)] publish_with_names flags Let_def
        split: sum.splits)
qed

lemma example_publish:
  "filter is_CreateRelease (trace (release_main insertion_sort example_flags example_github)) =
     [CreateRelease ''zjj2wry'' ''console-web''
        \<lparr>TagName = ''v1.0'', Name = ''1.0'', Prerelease = False,
         Body = note_line (example_pr 15 (Some 150) 160) @
                note_line (example_pr 17 (Some 170) 165)\<rparr>]"
  "status (release_main insertion_sort example_flags example_github) = Returned"
  "last (trace (release_main insertion_sort example_flags example_github)) =
     ReleaseURL ''https://github.com/releases/1''"
  "owner example_flags = ''caicloud''"
  "tagName example_flags = ''v1.0''"
  "releaseName example_flags = ''1.0''"
  by code_simp+

theorem publish_target_hard_coded_witness:
  "snd (generate insertion_sort example_flags example_github) = None \<and>
   tagName example_flags = ''v1.0'' \<and> releaseName example_flags = ''1.0'' \<and>
   owner example_flags = ''caicloud'' \<and>
   filter is_CreateRelease (trace (release_main insertion_sort example_flags example_github)) =
     [CreateRelease ''zjj2wry'' ''console-web''
        \<lparr>TagName = ''v1.0'', Name = ''1.0'', Prerelease = False,
         Body = note_line (example_pr 15 (Some 150) 160) @
                note_line (example_pr 17 (Some 170) 165)\<rparr>] \<and>
   status (release_main insertion_sort example_flags example_github) = Returned \<and>
   last (trace (release_main insertion_sort example_flags example_github)) =
     ReleaseURL ''https://github.com/releases/1''"
proof -
  have names: "tagName example_flags \<noteq> []" "releaseName example_flags \<noteq> []"
    by (simp_all add: example_flags_def)
  note publish_target_hard_coded [OF example_scan(3) names]
  with example_scan(3) example_publish show ?thesis
    by (intro conjI)
qed

text \<open>
  Claim C8. When the tag name or the release name is empty, no run calls
  \<^verbatim>\<open>CreateRelease\<close>; a run that reaches line 162 prints the header and the whole
  buffer, then the usage of the release flags, and exits with status 1.
\<close>

theorem missing_release_names:
  assumes "tagName f = [] \<or> releaseName f = []"
  shows "filter is_CreateRelease (trace (release_main srt f gh)) = [] \<and>
         (snd (generate srt f gh) = None \<longrightarrow>
            status (release_main srt f gh) = Exit 1 \<and>
            trace (release_main srt f gh) =
              out (fst (fst (generate srt f gh))) @
                [Newline,
                 NotesHeader (last' f) (current (fst (fst (generate srt f gh)))) (base f),
                 NotesBlock (buffer_bytes (note_list (release_main srt f gh))),
                 ReleaseUsage])"
proof -
  let ?s = "fst (fst (generate srt f gh))"
  have flags: "tagName ?s = tagName f" "releaseName ?s = releaseName f"
      "last' ?s = last' f" "base ?s = base f"
    using generate_same_flags [of f srt gh] by (simp_all add: same_flags_def)
  have quiet: "filter is_CreateRelease (out ?s) = []"
    by (rule generate_no_release)
  from assms flags have names: "tagName ?s = [] \<or> releaseName ?s = []"
    by simp
  show ?thesis
  proof (cases "snd (generate srt f gh)")
    case None
    show ?thesis
      using quiet
      by (simp add: None release_main_publish [OF None] publish_without_names [OF names] flags)
  next
    case (Some st)
    show ?thesis
      using quiet by (simp add: Some release_main_finish [OF Some])
  qed
qed

lemma untagged_run:
  "tagName untagged_flags = []"
  "snd (generate insertion_sort untagged_flags example_github) = None"
  "filter is_CreateRelease (trace (release_main insertion_sort untagged_flags example_github)) = []"
  "status (release_main insertion_sort untagged_flags example_github) = Exit 1"
  "trace (release_main insertion_sort untagged_flags example_github) =
     [FetchingPage 1, PullRequestsList ''caicloud'' ''console-web'' ''master'' 1,
      FoundCurrent 20, FoundLast 10, PageSummary 5 1, FetchingPage 2,
      PullRequestsList ''caicloud'' ''console-web'' ''master'' 2, Newline,
      NotesHeader 10 20 ''master'',
      NotesBlock (note_line (example_pr 15 (Some 150) 160) @
                  note_line (example_pr 17 (Some 170) 165)),
      ReleaseUsage]"
  by code_simp+

theorem missing_release_names_witness:
  "tagName untagged_flags = [] \<and>
   snd (generate insertion_sort untagged_flags example_github) = None \<and>
   filter is_CreateRelease (trace (release_main insertion_sort untagged_flags example_github)) = [] \<and>
   status (release_main insertion_sort untagged_flags example_github) = Exit 1 \<and>
   trace (release_main insertion_sort untagged_flags example_github) =
     [FetchingPage 1, PullRequestsList ''caicloud'' ''console-web'' ''master'' 1,
      FoundCurrent 20, FoundLast 10, PageSummary 5 1, FetchingPage 2,
      PullRequestsList ''caicloud'' ''console-web'' ''master'' 2, Newline,
      NotesHeader 10 20 ''master'',
      NotesBlock (note_line (example_pr 15 (Some 150) 160) @
                  note_line (example_pr 17 (Some 170) 165)),
      ReleaseUsage]"
proof -
  have "tagName untagged_flags = [] \<or> releaseName untagged_flags = []"
    using untagged_run(1) by (rule disjI1)
  note missing_release_names [OF this, of insertion_sort example_github]
  with untagged_run show ?thesis
    by (intro conjI)
qed

end
